theory Spec2Isabelle
  imports Main "HOL-Library.Word"
begin

section \<open>The CSV parser (src/js/csvParser.js)\<close>

text \<open>
  A JavaScript string is a sequence of UTF-16 code units; \<open>input[i]\<close> is the one-unit
  string at index \<open>i\<close> and \<open>ch.codePointAt(0)\<close> of a one-unit string is the unit's value.
\<close>

type_synonym jschar = "16 word"
type_synonym jsstring = "jschar list"

definition COMMA :: jschar where "COMMA = 0x2C"
definition DQ :: jschar where "DQ = 0x22"
definition CR :: jschar where "CR = 0x0D"
definition LF :: jschar where "LF = 0x0A"
definition TAB :: jschar where "TAB = 0x09"

text \<open>
  The parser throws \<open>SyntaxError\<close> with one of seven messages; each constructor stands
  for one message of the source:
  \<^item> \<open>BareNewlineNotAllowed\<close>: "Bare newline is not allowed (use CRLF)"
  \<^item> \<open>UnexpectedQuoteInUnquotedField\<close>: "Unexpected quote in unquoted field"
  \<^item> \<open>ControlCharNotAllowed\<close>: "Control char not allowed in unquoted field"
  \<^item> \<open>QuoteInsideUnquotedField\<close>: "Quote inside unquoted field"
  \<^item> \<open>IllegalCharacterInUnquotedField\<close>: "Illegal character in unquoted field"
  \<^item> \<open>InvalidCharacterAfterClosingQuote\<close>: "Invalid character after closing quote"
  \<^item> \<open>UnterminatedQuotedField\<close>: "Unterminated quoted field"
\<close>

datatype SyntaxError =
    BareNewlineNotAllowed
  | UnexpectedQuoteInUnquotedField
  | ControlCharNotAllowed
  | QuoteInsideUnquotedField
  | IllegalCharacterInUnquotedField
  | InvalidCharacterAfterClosingQuote
  | UnterminatedQuotedField

datatype STATE = START_FIELD | IN_FIELD | IN_QUOTED | AFTER_QUOTE

text \<open>
  The \<open>opts\<close> object: a property that is absent is \<open>None\<close>. The three constants of the
  source are \<open>opts.strict !== false\<close>, \<open>!!opts.allowBareLF\<close> and \<open>!!opts.allowBareCR\<close>.
\<close>

record options =
  opts_strict :: "bool option"
  opts_allowBareLF :: "bool option"
  opts_allowBareCR :: "bool option"

text \<open>The mutable locals of \<open>parseCSV\<close>: \<open>state\<close>, \<open>rows\<close>, \<open>row\<close> and \<open>field\<close>.\<close>

record parser =
  state :: STATE
  rows :: "jsstring list list"
  row :: "jsstring list"
  field :: jsstring

definition isControl :: "jschar \<Rightarrow> bool" where
  "isControl ch = (let code = unat ch in (0x00 \<le> code \<and> code \<le> 0x1F) \<or> code = 0x7F)"

definition endField :: "parser \<Rightarrow> parser" where
  "endField p = p\<lparr>row := row p @ [field p], field := []\<rparr>"

definition endRecord :: "parser \<Rightarrow> parser" where
  "endRecord p = (let p1 = endField p in p1\<lparr>rows := rows p1 @ [row p1], row := []\<rparr>)"

text \<open>
  One pass through the body of the scanning loop, one function per \<open>case\<close> of the
  \<open>switch\<close>. \<open>ch\<close> is \<open>input[i]\<close>, \<open>next\<close> is the look-ahead (the empty string at the
  end of the input). The result is the thrown error, or the updated locals together
  with the amount added to \<open>i\<close>.
\<close>

definition hasCRLF :: "jschar \<Rightarrow> jsstring \<Rightarrow> bool" where
  "hasCRLF ch next = (ch = CR \<and> next = [LF])"

definition caseStartField ::
  "bool \<Rightarrow> bool \<Rightarrow> bool \<Rightarrow> parser \<Rightarrow> jschar \<Rightarrow> jsstring \<Rightarrow> SyntaxError + (parser \<times> nat)" where
  "caseStartField strict allowBareLF allowBareCR p ch next =
    (if ch = DQ then Inr (p\<lparr>state := IN_QUOTED\<rparr>, 1)
     else if ch = COMMA then Inr (endField p, 1)
     else if hasCRLF ch next then Inr (endRecord p, 2)
     else if (ch = LF \<and> allowBareLF) \<or> (ch = CR \<and> allowBareCR) then Inr (endRecord p, 1)
     else if ch = CR \<or> ch = LF then
       (if strict then Inl BareNewlineNotAllowed else Inr (endRecord p, 1))
     else if ch = DQ \<and> strict then Inl UnexpectedQuoteInUnquotedField
     else if strict \<and> (isControl ch \<and> ch \<noteq> TAB) then Inl ControlCharNotAllowed
     else Inr (p\<lparr>state := IN_FIELD, field := field p @ [ch]\<rparr>, 1))"

definition caseInField ::
  "bool \<Rightarrow> bool \<Rightarrow> bool \<Rightarrow> parser \<Rightarrow> jschar \<Rightarrow> jsstring \<Rightarrow> SyntaxError + (parser \<times> nat)" where
  "caseInField strict allowBareLF allowBareCR p ch next =
    (if ch = COMMA then Inr ((endField p)\<lparr>state := START_FIELD\<rparr>, 1)
     else if hasCRLF ch next then Inr ((endRecord p)\<lparr>state := START_FIELD\<rparr>, 2)
     else if (ch = LF \<and> allowBareLF) \<or> (ch = CR \<and> allowBareCR)
       then Inr ((endRecord p)\<lparr>state := START_FIELD\<rparr>, 1)
     else if ch = DQ \<and> strict then Inl QuoteInsideUnquotedField
     else if strict \<and> (ch = CR \<or> ch = LF \<or> ch = DQ) then Inl IllegalCharacterInUnquotedField
     else if strict \<and> (isControl ch \<and> ch \<noteq> TAB) then Inl ControlCharNotAllowed
     else Inr (p\<lparr>field := field p @ [ch]\<rparr>, 1))"

definition caseInQuoted :: "parser \<Rightarrow> jschar \<Rightarrow> SyntaxError + (parser \<times> nat)" where
  "caseInQuoted p ch =
    (if ch = DQ then Inr (p\<lparr>state := AFTER_QUOTE\<rparr>, 1)
     else Inr (p\<lparr>field := field p @ [ch]\<rparr>, 1))"

definition caseAfterQuote ::
  "bool \<Rightarrow> bool \<Rightarrow> bool \<Rightarrow> parser \<Rightarrow> jschar \<Rightarrow> jsstring \<Rightarrow> SyntaxError + (parser \<times> nat)" where
  "caseAfterQuote strict allowBareLF allowBareCR p ch next =
    (if ch = DQ then Inr (p\<lparr>field := field p @ [DQ], state := IN_QUOTED\<rparr>, 1)
     else if ch = COMMA then Inr ((endField p)\<lparr>state := START_FIELD\<rparr>, 1)
     else if hasCRLF ch next then Inr ((endRecord p)\<lparr>state := START_FIELD\<rparr>, 2)
     else if (ch = LF \<and> allowBareLF) \<or> (ch = CR \<and> allowBareCR)
       then Inr ((endRecord p)\<lparr>state := START_FIELD\<rparr>, 1)
     else if strict then Inl InvalidCharacterAfterClosingQuote
     else Inr (p\<lparr>state := IN_FIELD, field := field p @ [ch]\<rparr>, 1))"

definition loopBody ::
  "bool \<Rightarrow> bool \<Rightarrow> bool \<Rightarrow> parser \<Rightarrow> jschar \<Rightarrow> jsstring \<Rightarrow> SyntaxError + (parser \<times> nat)" where
  "loopBody strict allowBareLF allowBareCR p ch next =
    (case state p of
       START_FIELD \<Rightarrow> caseStartField strict allowBareLF allowBareCR p ch next
     | IN_FIELD \<Rightarrow> caseInField strict allowBareLF allowBareCR p ch next
     | IN_QUOTED \<Rightarrow> caseInQuoted p ch
     | AFTER_QUOTE \<Rightarrow> caseAfterQuote strict allowBareLF allowBareCR p ch next)"

text \<open>
  The loop \<open>while (i < n)\<close>, on the part of the input from index \<open>i\<close> on: \<open>ch\<close> is its
  head, the look-ahead is the first unit of the tail, and adding \<open>k\<close> to \<open>i\<close> drops
  \<open>k\<close> units.
\<close>

fun scan :: "bool \<Rightarrow> bool \<Rightarrow> bool \<Rightarrow> parser \<Rightarrow> jsstring \<Rightarrow> SyntaxError + parser" where
  "scan strict allowBareLF allowBareCR p [] = Inr p"
| "scan strict allowBareLF allowBareCR p (ch # rest) =
    (case loopBody strict allowBareLF allowBareCR p ch (take 1 rest) of
       Inl e \<Rightarrow> Inl e
     | Inr (p', k) \<Rightarrow> scan strict allowBareLF allowBareCR p' (drop (k - 1) rest))"

text \<open>The handling of the end of the input (the second \<open>switch\<close>).\<close>

definition atEOF :: "bool \<Rightarrow> parser \<Rightarrow> SyntaxError + jsstring list list" where
  "atEOF strict p =
    (case state p of
       IN_QUOTED \<Rightarrow>
         (if strict then Inl UnterminatedQuotedField
          else (let p1 = endField p in Inr (rows p1 @ [row p1])))
     | _ \<Rightarrow>
         (if field p \<noteq> [] \<or> length (row p) > 0
          then (let p1 = endField p in Inr (rows p1 @ [row p1]))
          else Inr (rows p)))"

definition initial :: parser where
  "initial = \<lparr>state = START_FIELD, rows = [], row = [], field = []\<rparr>"

definition parseCSV :: "jsstring \<Rightarrow> options \<Rightarrow> SyntaxError + jsstring list list" where
  "parseCSV input opts =
    (let strict = (opts_strict opts \<noteq> Some False);
         allowBareLF = (opts_allowBareLF opts = Some True);
         allowBareCR = (opts_allowBareCR opts = Some True)
     in case scan strict allowBareLF allowBareCR initial input of
          Inl e \<Rightarrow> Inl e
        | Inr p \<Rightarrow> atEOF strict p)"

section \<open>The chunked UTF-8 decoder (src/js/iterateCharactersFromFile.js)\<close>

type_synonym byte = "8 word"
type_synonym Uint8Array = "byte list"

text \<open>
  Reading a typed array outside its range gives \<open>undefined\<close>, here \<open>None\<close>.
\<close>

definition index :: "Uint8Array \<Rightarrow> int \<Rightarrow> byte option" where
  "index xs i = (if 0 \<le> i \<and> i < int (length xs) then Some (xs ! nat i) else None)"

text \<open>
  \<open>slice(start, end)\<close> of a typed array: a negative bound counts from the end, both
  bounds are clamped to the array, and an empty range gives the empty array.
\<close>

definition slice :: "Uint8Array \<Rightarrow> int \<Rightarrow> int \<Rightarrow> Uint8Array" where
  "slice xs start fin =
    (let len = int (length xs);
         k = (if start < 0 then max (len + start) 0 else min start len);
         final = (if fin < 0 then max (len + fin) 0 else min fin len)
     in take (nat (final - k)) (drop (nat k) xs))"

text \<open>
  \<open>charBytes(head)\<close>. With \<open>head\<close> undefined every comparison \<open>k <= head\<close> is false,
  and the last branch returns 1.
\<close>

definition charBytes :: "byte option \<Rightarrow> int" where
  "charBytes head =
    (case head of
       None \<Rightarrow> 1
     | Some b \<Rightarrow>
         (if 240 \<le> b then 4
          else if 224 \<le> b then 3
          else if 192 \<le> b then 2
          else 1))"

text \<open>
  The first half of the loop body (the \<open>if\<close> on a pending fragment): it either ends
  the pass with \<open>continue\<close>, or falls through to the second half with the characters
  yielded so far, \<open>start\<close> and \<open>fragment\<close>.
\<close>

datatype firstHalf =
    Continue int Uint8Array
  | FallThrough "Uint8Array list" int Uint8Array

definition completeFragment :: "Uint8Array \<Rightarrow> int \<Rightarrow> Uint8Array \<Rightarrow> firstHalf" where
  "completeFragment chunk start fragment =
    (let chunkSize = int (length chunk) in
     if start = 0 \<and> length fragment > 0 then
       (let n = charBytes (index fragment 0);
            remainSize = n - int (length fragment)
        in if start + remainSize > chunkSize
           then Continue chunkSize (fragment @ chunk)
           else (let remain = slice chunk start remainSize;
                     combined = fragment @ remain
                 in FallThrough [combined] remainSize []))
     else FallThrough [] start fragment)"

text \<open>
  The second half of the body: the character at \<open>start\<close>, as \<open>(end, carryOver,
  character)\<close>.
\<close>

definition readCharacter :: "Uint8Array \<Rightarrow> int \<Rightarrow> int \<times> bool \<times> Uint8Array" where
  "readCharacter chunk start =
    (let chunkSize = int (length chunk);
         n = charBytes (index chunk start);
         carryOver = (start + n > chunkSize);
         fin = (if carryOver then chunkSize else start + n);
         character = slice chunk start fin
     in (fin, carryOver, character))"

text \<open>A generator's result: the values yielded, in order, and the fragment left.\<close>

definition yield :: "Uint8Array list \<Rightarrow> Uint8Array list \<times> Uint8Array \<Rightarrow> Uint8Array list \<times> Uint8Array" where
  "yield ys r = (ys @ fst r, snd r)"

text \<open>The loop \<open>while (start < chunkSize)\<close> over one chunk.\<close>

function whileLoop :: "Uint8Array \<Rightarrow> int \<Rightarrow> Uint8Array \<Rightarrow> Uint8Array list \<times> Uint8Array" where
  "whileLoop chunk start fragment =
    (if start < int (length chunk) then
       (case completeFragment chunk start fragment of
          Continue start' fragment' \<Rightarrow> whileLoop chunk start' fragment'
        | FallThrough ys start' fragment' \<Rightarrow>
            (case readCharacter chunk start' of
               (fin, carryOver, character) \<Rightarrow>
                 if carryOver then yield ys (whileLoop chunk fin character)
                 else yield (ys @ [character]) (whileLoop chunk fin fragment')))
     else ([], fragment))"
  by pat_completeness auto

termination
proof -
  have pos: "0 < charBytes h" for h
    by (simp add: charBytes_def split: option.split)
  have neg: "s < 0" if "s + charBytes h \<le> 0" for s h
    using that pos [of h] by arith
  have empty: "slice [] a b = []" for a b
    by (simp add: slice_def)
  show ?thesis
    apply (relation "measures
      [\<lambda>(chunk, start, fragment). if start \<le> 0 \<and> fragment \<noteq> [] then 1 else 0,
       \<lambda>(chunk, start, fragment). nat (int (length chunk) - start)]")
       apply simp
      apply (auto simp: completeFragment_def Let_def split: if_splits)[1]
     apply (auto simp: completeFragment_def readCharacter_def Let_def empty pos
        split: if_splits dest: neg)
    done
qed

text \<open>The loop \<open>for await (const chunk of ...)\<close> over the chunks, in order.\<close>

fun forAwait :: "Uint8Array \<Rightarrow> Uint8Array list \<Rightarrow> Uint8Array list \<times> Uint8Array" where
  "forAwait fragment [] = ([], fragment)"
| "forAwait fragment (chunk # chunks) =
    (case whileLoop chunk 0 fragment of
       (ys, fragment') \<Rightarrow> yield ys (forAwait fragment' chunks))"

text \<open>
  The body of \<open>iterateCharactersFromFile\<close> on the sequence of chunks that
  \<open>iterateChunksFromFile\<close> hands to it: the characters it yields, and whether the
  diagnostic of the last \<open>if\<close> (a fragment is left) is logged.
\<close>

definition iterateCharacters :: "Uint8Array list \<Rightarrow> Uint8Array list \<times> bool" where
  "iterateCharacters chunks =
    (case forAwait [] chunks of (ys, fragment) \<Rightarrow> (ys, length fragment > 0))"

definition CHUNK_SIZE :: nat where
  "CHUNK_SIZE = 1 * 1024 * 1024"

text \<open>
  \<open>iterateChunksFromFile\<close>: the file is its bytes, \<open>file.size\<close> their number and
  \<open>file.slice(offset, end)\<close> the bytes from \<open>offset\<close> up to \<open>end\<close>.
\<close>

function chunksFrom :: "Uint8Array \<Rightarrow> nat \<Rightarrow> Uint8Array list" where
  "chunksFrom file offset =
    (if offset < length file then
       (let want = CHUNK_SIZE;
            fin = min (offset + want) (length file);
            buf = take (fin - offset) (drop offset file)
        in buf # chunksFrom file fin)
     else [])"
  by pat_completeness auto
termination
  by (relation "measure (\<lambda>(file, offset). length file - offset)")
     (auto simp: CHUNK_SIZE_def)

definition iterateChunksFromFile :: "Uint8Array \<Rightarrow> Uint8Array list" where
  "iterateChunksFromFile file = chunksFrom file 0"

definition iterateCharactersFromFile :: "Uint8Array \<Rightarrow> Uint8Array list \<times> bool" where
  "iterateCharactersFromFile file = iterateCharacters (iterateChunksFromFile file)"

subsection \<open>Reference notions for the decoder's properties\<close>

text \<open>
  The division of a byte sequence into characters by their leading bytes: the complete
  characters in order, and the bytes of an incomplete last character.
\<close>

function characters :: "Uint8Array \<Rightarrow> Uint8Array list \<times> Uint8Array" where
  "characters [] = ([], [])"
| "characters (b # bs) =
    (let n = nat (charBytes (Some b)) in
     if length (b # bs) < n then ([], b # bs)
     else yield [take n (b # bs)] (characters (drop n (b # bs))))"
  by pat_completeness auto
termination
  by (relation "measure length") (auto simp: charBytes_def)

text \<open>
  Well-formed UTF-8 byte sequences, as in the Unicode Standard (table 3-7): the ranges
  of the leading byte and of each byte after it.
\<close>

definition continuation :: "byte \<Rightarrow> bool" where
  "continuation b = (0x80 \<le> b \<and> b \<le> 0xBF)"

fun wellFormedUTF8 :: "Uint8Array \<Rightarrow> bool" where
  "wellFormedUTF8 [] = True"
| "wellFormedUTF8 (b # bs) =
    (if b \<le> 0x7F then wellFormedUTF8 bs
     else if 0xC2 \<le> b \<and> b \<le> 0xDF then
       (case bs of
          c1 # r \<Rightarrow> continuation c1 \<and> wellFormedUTF8 r
        | _ \<Rightarrow> False)
     else if 0xE0 \<le> b \<and> b \<le> 0xEF then
       (case bs of
          c1 # c2 # r \<Rightarrow>
            (if b = 0xE0 then 0xA0 \<le> c1 \<and> c1 \<le> 0xBF
             else if b = 0xED then 0x80 \<le> c1 \<and> c1 \<le> 0x9F
             else continuation c1)
            \<and> continuation c2 \<and> wellFormedUTF8 r
        | _ \<Rightarrow> False)
     else if 0xF0 \<le> b \<and> b \<le> 0xF4 then
       (case bs of
          c1 # c2 # c3 # r \<Rightarrow>
            (if b = 0xF0 then 0x90 \<le> c1 \<and> c1 \<le> 0xBF
             else if b = 0xF4 then 0x80 \<le> c1 \<and> c1 \<le> 0x8F
             else continuation c1)
            \<and> continuation c2 \<and> continuation c3 \<and> wellFormedUTF8 r
        | _ \<Rightarrow> False)
     else False)"

text \<open>
  A fragment is pending when it is shorter than the length its first byte announces
  (the empty fragment is: \<open>charBytes\<close> of no byte is 1).
\<close>

definition pending :: "Uint8Array \<Rightarrow> bool" where
  "pending fragment = (int (length fragment) < charBytes (index fragment 0))"

section \<open>Properties of the CSV parser\<close>

lemmas step_defs = loopBody_def caseStartField_def caseInField_def caseInQuoted_def
  caseAfterQuote_def

lemmas char_defs = COMMA_def DQ_def CR_def LF_def TAB_def

lemmas csv_defs = parseCSV_def atEOF_def step_defs endField_def endRecord_def hasCRLF_def
  isControl_def initial_def char_defs Let_def

subsection \<open>Lenient mode\<close>

lemma loopBody_lenient: "\<exists>p' k. loopBody False lf cr p ch next = Inr (p', k)"
  by (simp add: step_defs split: STATE.split)

lemma scan_lenient: "\<exists>p'. scan False lf cr p input = Inr p'"
proof (induction input arbitrary: p rule: length_induct)
  case (1 xs)
  show ?case
  proof (cases xs)
    case Nil
    then show ?thesis by simp
  next
    case (Cons ch rest)
    obtain p' k where s: "loopBody False lf cr p ch (take 1 rest) = Inr (p', k)"
      using loopBody_lenient by blast
    have "length (drop (k - 1) rest) < length xs"
      using Cons by simp
    then obtain p'' where "scan False lf cr p' (drop (k - 1) rest) = Inr p''"
      using 1 by blast
    then show ?thesis
      using Cons s by simp
  qed
qed

lemma atEOF_lenient: "\<exists>t. atEOF False p = Inr t"
  by (simp add: atEOF_def Let_def split: STATE.split)

text \<open>
  C8: for every input text and every setting of \<open>allowBareLF\<close> and \<open>allowBareCR\<close>,
  \<open>parseCSV\<close> with \<open>strict = false\<close> raises no error: it returns a table.
\<close>

theorem lenient_never_raises:
  "\<exists>t. parseCSV input
      \<lparr>opts_strict = Some False, opts_allowBareLF = lf, opts_allowBareCR = cr\<rparr> = Inr t"
proof -
  obtain p where "scan False (lf = Some True) (cr = Some True) initial input = Inr p"
    using scan_lenient by blast
  then show ?thesis
    using atEOF_lenient [of p] by (simp add: parseCSV_def)
qed

theorem lenient_never_raises_witness:
  "\<exists>t. parseCSV [DQ, 0x61, LF, DQ, 0x62, CR]
      \<lparr>opts_strict = Some False, opts_allowBareLF = None, opts_allowBareCR = Some True\<rparr> = Inr t"
  using lenient_never_raises [of "[DQ, 0x61, LF, DQ, 0x62, CR]" None "Some True"] by simp

text \<open>
  C2, as the code has it: in lenient mode a bare CR or LF (not the CR of a CRLF pair)
  outside a quoted region ends the current record in state \<open>START_FIELD\<close> whatever
  the flags are; in \<open>IN_FIELD\<close> and \<open>AFTER_QUOTE\<close> it ends the record only when its own
  flag (\<open>allowBareLF\<close> for LF, \<open>allowBareCR\<close> for CR) is on, and with the flag off it
  is appended to the current field and the parser goes on in \<open>IN_FIELD\<close>.
\<close>

theorem lenient_bare_newline_by_state:
  assumes "ch = LF \<or> (ch = CR \<and> next \<noteq> [LF])" and "state p \<noteq> IN_QUOTED"
  shows "loopBody False lf cr p ch next =
          (if state p = START_FIELD then Inr (endRecord p, 1)
           else if (ch = LF \<and> lf) \<or> (ch = CR \<and> cr)
             then Inr ((endRecord p)\<lparr>state := START_FIELD\<rparr>, 1)
           else Inr (p\<lparr>state := IN_FIELD, field := field p @ [ch]\<rparr>, 1))"
  using assms
  by (cases "state p") (auto simp: step_defs hasCRLF_def char_defs)

theorem lenient_bare_newline_by_state_witness:
  "(LF = LF \<or> (LF = CR \<and> [0x62] \<noteq> [LF]))
   \<and> state \<lparr>state = AFTER_QUOTE, rows = [], row = [], field = [0x61]\<rparr> \<noteq> IN_QUOTED
   \<and> loopBody False False True \<lparr>state = AFTER_QUOTE, rows = [], row = [], field = [0x61]\<rparr>
        LF [0x62]
      = Inr (\<lparr>state = IN_FIELD, rows = [], row = [], field = [0x61, LF]\<rparr>, 1)"
  using lenient_bare_newline_by_state
    [of LF "[0x62]" "\<lparr>state = AFTER_QUOTE, rows = [], row = [], field = [0x61]\<rparr>" False True]
  by (simp add: char_defs)

text \<open>
  C2 as stated fails in \<open>IN_FIELD\<close>: with both flags off the LF of \<open>a\<close> LF \<open>b\<close> does
  not end the record, and the lenient parse is one row of one field.
\<close>

theorem lenient_bare_newline_in_field_counterexample:
  "loopBody False False False \<lparr>state = IN_FIELD, rows = [], row = [], field = [0x61]\<rparr> LF [0x62]
     \<noteq> Inr ((endRecord \<lparr>state = IN_FIELD, rows = [], row = [], field = [0x61]\<rparr>)
              \<lparr>state := START_FIELD\<rparr>, 1)
   \<and> parseCSV [0x61, LF, 0x62]
        \<lparr>opts_strict = Some False, opts_allowBareLF = Some False, opts_allowBareCR = Some False\<rparr>
      = Inr [[[0x61, LF, 0x62]]]"
  by (simp add: csv_defs)

subsection \<open>Bare newlines in strict mode\<close>

text \<open>
  C3, as the code has it: parsing \<open>a\<close> LF \<open>b\<close> with \<open>strict = true\<close> and
  \<open>allowBareLF = false\<close> raises the error "Illegal character in unquoted field"
  (the LF is met in state \<open>IN_FIELD\<close>), and with \<open>allowBareLF = true\<close> it returns the two
  single-field rows \<open>a\<close> and \<open>b\<close>.
\<close>

theorem strict_bare_LF_example:
  "parseCSV [0x61, LF, 0x62]
      \<lparr>opts_strict = Some True, opts_allowBareLF = Some False, opts_allowBareCR = cr\<rparr>
     = Inl IllegalCharacterInUnquotedField
   \<and> parseCSV [0x61, LF, 0x62]
      \<lparr>opts_strict = Some True, opts_allowBareLF = Some True, opts_allowBareCR = cr\<rparr>
     = Inr [[[0x61]], [[0x62]]]"
  by (simp add: csv_defs)

theorem strict_bare_LF_example_witness:
  "parseCSV [0x61, LF, 0x62]
      \<lparr>opts_strict = Some True, opts_allowBareLF = Some False, opts_allowBareCR = None\<rparr>
     = Inl IllegalCharacterInUnquotedField
   \<and> parseCSV [0x61, LF, 0x62]
      \<lparr>opts_strict = Some True, opts_allowBareLF = Some True, opts_allowBareCR = None\<rparr>
     = Inr [[[0x61]], [[0x62]]]"
  using strict_bare_LF_example [of None] by simp

text \<open>C3 as stated fails: the error raised is not "Bare newline is not allowed".\<close>

theorem strict_bare_LF_counterexample:
  "parseCSV [0x61, LF, 0x62]
      \<lparr>opts_strict = Some True, opts_allowBareLF = Some False, opts_allowBareCR = Some False\<rparr>
     \<noteq> Inl BareNewlineNotAllowed"
  by (simp add: csv_defs)

subsection \<open>The input as a prefix followed by CRLF\<close>

lemma loopBody_consumed:
  "loopBody strict lf cr p ch next = Inr (p', k) \<Longrightarrow>
   k = (if hasCRLF ch next \<and> state p \<noteq> IN_QUOTED then 2 else 1)"
  by (auto simp: step_defs hasCRLF_def char_defs split: STATE.splits if_splits)

lemma loopBody_next:
  "y \<noteq> LF \<Longrightarrow> loopBody strict lf cr p ch [y] = loopBody strict lf cr p ch []"
  by (simp add: step_defs hasCRLF_def split: STATE.splits)

lemma scan_append:
  "take 1 ys \<noteq> [LF] \<Longrightarrow>
   scan strict lf cr p (xs @ ys) =
     (case scan strict lf cr p xs of Inl e \<Rightarrow> Inl e | Inr p' \<Rightarrow> scan strict lf cr p' ys)"
proof (induction strict lf cr p xs rule: scan.induct)
  case (1 strict lf cr p)
  then show ?case by simp
next
  case (2 strict lf cr p ch rest)
  show ?case
  proof (cases rest)
    case Nil
    have "loopBody strict lf cr p ch (take 1 ys) = loopBody strict lf cr p ch []"
      using 2(2) loopBody_next [of "hd ys" strict lf cr p ch] by (cases ys) auto
    moreover have "\<And>p' k. loopBody strict lf cr p ch [] = Inr (p', k) \<Longrightarrow> k = 1"
      using loopBody_consumed [of strict lf cr p ch "[]"] by (simp add: hasCRLF_def)
    ultimately show ?thesis
      using Nil by (auto split: sum.splits)
  next
    case (Cons r rs)
    show ?thesis
    proof (cases "loopBody strict lf cr p ch [r]")
      case (Inl e)
      then show ?thesis using Cons by simp
    next
      case (Inr pk)
      obtain p' k where pk: "pk = (p', k)"
        by (cases pk)
      have k: "k = 1 \<or> k = 2"
        using loopBody_consumed [of strict lf cr p ch "[r]" p' k] Inr pk
        by (auto split: if_splits)
      have "scan strict lf cr p' (drop (k - 1) rest @ ys) =
          (case scan strict lf cr p' (drop (k - 1) rest) of
             Inl e \<Rightarrow> Inl e | Inr p'' \<Rightarrow> scan strict lf cr p'' ys)"
        using 2(1) [of "(p', k)" p' k] Inr pk Cons 2(2) by simp
      moreover have "drop (k - 1) (rest @ ys) = drop (k - 1) rest @ ys"
        using k Cons by auto
      ultimately show ?thesis
        using Inr pk Cons by simp
    qed
  qed
qed

lemma scan_CRLF:
  "state p \<noteq> IN_QUOTED \<Longrightarrow>
   scan strict lf cr p [CR, LF] = Inr ((endRecord p)\<lparr>state := START_FIELD\<rparr>)"
  by (cases "state p")
     (simp_all add: step_defs hasCRLF_def char_defs endRecord_def endField_def Let_def)

lemma atEOF_unquoted:
  "state p \<noteq> IN_QUOTED \<Longrightarrow>
   atEOF strict p =
     Inr (if field p \<noteq> [] \<or> length (row p) > 0 then rows p @ [row p @ [field p]] else rows p)"
  by (cases "state p") (simp_all add: atEOF_def endField_def Let_def)

subsection \<open>The end of the input\<close>

text \<open>
  C5: when the input ends in state \<open>START_FIELD\<close>, \<open>IN_FIELD\<close> or \<open>AFTER_QUOTE\<close>
  (\<open>p\<close> are the locals after the scanning loop), \<open>parseCSV\<close> appends a last row, the
  fields of the current row followed by the current field, if and only if the current
  field is not empty or the current row has a field already. So an input without a
  record separator at its end still gives its last row, and the same input followed
  by CRLF gives the rows so far and that one row, with no empty row after it.
\<close>

theorem eof_flushes_pending_data:
  assumes "scan s lf cr initial input = Inr p" and "state p \<noteq> IN_QUOTED"
  shows "parseCSV input
           \<lparr>opts_strict = Some s, opts_allowBareLF = Some lf, opts_allowBareCR = Some cr\<rparr>
          = Inr (if field p \<noteq> [] \<or> length (row p) > 0
                 then rows p @ [row p @ [field p]] else rows p)
       \<and> parseCSV (input @ [CR, LF])
           \<lparr>opts_strict = Some s, opts_allowBareLF = Some lf, opts_allowBareCR = Some cr\<rparr>
          = Inr (rows p @ [row p @ [field p]])"
proof -
  have "take 1 [CR, LF] \<noteq> [LF]"
    by (simp add: char_defs)
  then have "scan s lf cr initial (input @ [CR, LF]) = scan s lf cr p [CR, LF]"
    using scan_append [of "[CR, LF]" s lf cr initial input] assms(1) by simp
  then have "scan s lf cr initial (input @ [CR, LF]) =
      Inr ((endRecord p)\<lparr>state := START_FIELD\<rparr>)"
    using scan_CRLF [OF assms(2)] by simp
  then have "parseCSV (input @ [CR, LF])
           \<lparr>opts_strict = Some s, opts_allowBareLF = Some lf, opts_allowBareCR = Some cr\<rparr>
          = Inr (rows p @ [row p @ [field p]])"
    by (simp add: parseCSV_def atEOF_def endRecord_def endField_def Let_def)
  moreover have "parseCSV input
           \<lparr>opts_strict = Some s, opts_allowBareLF = Some lf, opts_allowBareCR = Some cr\<rparr>
          = Inr (if field p \<noteq> [] \<or> length (row p) > 0
                 then rows p @ [row p @ [field p]] else rows p)"
    using assms atEOF_unquoted [of p s] by (simp add: parseCSV_def)
  ultimately show ?thesis
    by simp
qed

theorem eof_flushes_pending_data_witness:
  "parseCSV [0x61, COMMA, 0x62]
     \<lparr>opts_strict = Some True, opts_allowBareLF = Some False, opts_allowBareCR = Some False\<rparr>
    = Inr [[[0x61], [0x62]]]
   \<and> parseCSV ([0x61, COMMA, 0x62] @ [CR, LF])
     \<lparr>opts_strict = Some True, opts_allowBareLF = Some False, opts_allowBareCR = Some False\<rparr>
    = Inr [[[0x61], [0x62]]]"
proof -
  have s: "scan True False False initial [0x61, COMMA, 0x62] =
      Inr \<lparr>state = IN_FIELD, rows = [], row = [[0x61]], field = [0x62]\<rparr>"
    by (simp add: csv_defs)
  show ?thesis
    using eof_flushes_pending_data [OF s] by simp
qed

text \<open>
  C6: when the input ends in state \<open>IN_QUOTED\<close> (a quote was opened and not closed),
  \<open>parseCSV\<close> in strict mode raises "Unterminated quoted field", and in lenient mode
  it returns the rows so far and a last row whose last field is the field accumulated.
\<close>

theorem eof_in_quoted:
  assumes "scan s lf cr initial input = Inr p" and "state p = IN_QUOTED"
  shows "parseCSV input
           \<lparr>opts_strict = Some s, opts_allowBareLF = Some lf, opts_allowBareCR = Some cr\<rparr>
          = (if s then Inl UnterminatedQuotedField else Inr (rows p @ [row p @ [field p]]))"
  using assms by (simp add: parseCSV_def atEOF_def endField_def Let_def)

theorem eof_in_quoted_witness:
  "parseCSV [0x61, COMMA, DQ, 0x62, COMMA]
     \<lparr>opts_strict = Some True, opts_allowBareLF = Some False, opts_allowBareCR = Some False\<rparr>
    = Inl UnterminatedQuotedField
   \<and> parseCSV [0x61, COMMA, DQ, 0x62, COMMA]
     \<lparr>opts_strict = Some False, opts_allowBareLF = Some False, opts_allowBareCR = Some False\<rparr>
    = Inr [[[0x61], [0x62, COMMA]]]"
proof -
  have s: "scan s False False initial [0x61, COMMA, DQ, 0x62, COMMA] =
      Inr \<lparr>state = IN_QUOTED, rows = [], row = [[0x61]], field = [0x62, COMMA]\<rparr>" for s
    by (simp add: csv_defs)
  show ?thesis
    using eof_in_quoted [OF s [of True]] eof_in_quoted [OF s [of False]] by simp
qed

text \<open>
  C10: the input of two characters, an opening quote and a closing quote, parses to
  the table with no rows, whatever the options: the scanning loop ends in
  \<open>AFTER_QUOTE\<close> with an empty field and an empty row, and the end of the input adds
  nothing.
\<close>

theorem empty_quoted_field_alone:
  "parseCSV [DQ, DQ] opts = Inr []
   \<and> scan s lf cr initial [DQ, DQ] =
       Inr \<lparr>state = AFTER_QUOTE, rows = [], row = [], field = []\<rparr>"
  by (simp add: csv_defs)

theorem empty_quoted_field_alone_witness:
  "parseCSV [DQ, DQ]
     \<lparr>opts_strict = Some True, opts_allowBareLF = None, opts_allowBareCR = None\<rparr> = Inr []
   \<and> parseCSV [DQ, DQ]
     \<lparr>opts_strict = Some False, opts_allowBareLF = None, opts_allowBareCR = None\<rparr> = Inr []"
  using empty_quoted_field_alone
    [of "\<lparr>opts_strict = Some True, opts_allowBareLF = None, opts_allowBareCR = None\<rparr>"]
    empty_quoted_field_alone
    [of "\<lparr>opts_strict = Some False, opts_allowBareLF = None, opts_allowBareCR = None\<rparr>"]
  by simp

subsection \<open>A quote where a field starts\<close>

lemma loopBody_no_unexpected_quote:
  "loopBody strict lf cr p ch next \<noteq> Inl UnexpectedQuoteInUnquotedField"
  by (simp add: step_defs split: STATE.split)

lemma scan_no_unexpected_quote:
  "scan strict lf cr p input \<noteq> Inl UnexpectedQuoteInUnquotedField"
proof (induction strict lf cr p input rule: scan.induct)
  case (1 strict lf cr p)
  then show ?case by simp
next
  case (2 strict lf cr p ch rest)
  then show ?case
    using loopBody_no_unexpected_quote [of strict lf cr p ch "take 1 rest"]
    by (auto split: sum.splits)
qed

lemma atEOF_no_unexpected_quote: "atEOF strict p \<noteq> Inl UnexpectedQuoteInUnquotedField"
  by (simp add: atEOF_def Let_def split: STATE.split)

text \<open>
  C7, as the code has it: in strict mode a quote met where a field starts (state
  \<open>START_FIELD\<close>) opens a quoted field and raises nothing; the error "Unexpected quote
  in unquoted field" is raised for no input and no options; and a quote met after
  the content of an unquoted field has begun (state \<open>IN_FIELD\<close>) raises "Quote inside
  unquoted field".
\<close>

theorem quote_at_field_start:
  "loopBody True lf cr (p\<lparr>state := START_FIELD\<rparr>) DQ next = Inr (p\<lparr>state := IN_QUOTED\<rparr>, 1)
   \<and> parseCSV input opts \<noteq> Inl UnexpectedQuoteInUnquotedField
   \<and> loopBody True lf cr (p\<lparr>state := IN_FIELD\<rparr>) DQ next = Inl QuoteInsideUnquotedField"
proof -
  have "parseCSV input opts \<noteq> Inl UnexpectedQuoteInUnquotedField"
    using scan_no_unexpected_quote atEOF_no_unexpected_quote
    by (auto simp: parseCSV_def Let_def split: sum.splits)
  then show ?thesis
    by (simp add: step_defs hasCRLF_def char_defs)
qed

theorem quote_at_field_start_witness:
  "loopBody True False False (initial\<lparr>state := START_FIELD\<rparr>) DQ [0x61]
     = Inr (initial\<lparr>state := IN_QUOTED\<rparr>, 1)
   \<and> parseCSV [0x61, COMMA, DQ, 0x62, DQ]
        \<lparr>opts_strict = Some True, opts_allowBareLF = None, opts_allowBareCR = None\<rparr>
      \<noteq> Inl UnexpectedQuoteInUnquotedField
   \<and> loopBody True False False (initial\<lparr>state := IN_FIELD\<rparr>) DQ [0x61]
     = Inl QuoteInsideUnquotedField"
  using quote_at_field_start [of False False initial "[0x61]" "[0x61, COMMA, DQ, 0x62, DQ]"
      "\<lparr>opts_strict = Some True, opts_allowBareLF = None, opts_allowBareCR = None\<rparr>"]
  by simp

text \<open>
  C7 as stated fails: in strict mode the field \<open>"b"\<close>, whose first character is a
  quote, is read as a quoted field, and no error is raised.
\<close>

theorem quote_at_field_start_counterexample:
  "parseCSV [0x61, COMMA, DQ, 0x62, DQ]
     \<lparr>opts_strict = Some True, opts_allowBareLF = Some False, opts_allowBareCR = Some False\<rparr>
    = Inr [[[0x61], [0x62]]]
   \<and> loopBody True False False \<lparr>state = START_FIELD, rows = [], row = [[0x61]], field = []\<rparr>
        DQ [0x62]
      \<noteq> Inl UnexpectedQuoteInUnquotedField"
  by (simp add: csv_defs)

section \<open>Properties of the decoder\<close>

declare whileLoop.simps [simp del]
declare characters.simps [simp del]
declare chunksFrom.simps [simp del]

subsection \<open>One chunk\<close>

lemma charBytes_pos: "0 < charBytes h"
  by (simp add: charBytes_def split: option.split)

lemma slice_range:
  "0 \<le> a \<Longrightarrow> a \<le> b \<Longrightarrow> b \<le> int (length xs) \<Longrightarrow>
   slice xs a b = take (nat (b - a)) (drop (nat a) xs)"
  by (simp add: slice_def Let_def min_def)

lemma slice_to_end:
  "0 \<le> a \<Longrightarrow> a \<le> int (length xs) \<Longrightarrow> slice xs a (int (length xs)) = drop (nat a) xs"
  by (simp add: slice_range)

lemma yield_Nil [simp]: "yield [] r = r"
  by (simp add: yield_def)

lemma yield_yield: "yield xs (yield ys r) = yield (xs @ ys) r"
  by (simp add: yield_def)

lemma yield_pair [simp]: "yield xs (ys, f) = (xs @ ys, f)"
  by (simp add: yield_def)


lemma whileLoop_done:
  "int (length chunk) \<le> start \<Longrightarrow> whileLoop chunk start fragment = ([], fragment)"
  by (subst whileLoop.simps) simp

lemma characters_Nil [simp]: "characters [] = ([], [])"
  by (rule characters.simps(1))

lemma characters_incomplete:
  "xs \<noteq> [] \<Longrightarrow> int (length xs) < charBytes (index xs 0) \<Longrightarrow> characters xs = ([], xs)"
proof (cases xs)
  case Nil
  assume "xs \<noteq> []"
  then show ?thesis using Nil by simp
next
  case (Cons b bs)
  assume "int (length xs) < charBytes (index xs 0)"
  then have "length (b # bs) < nat (charBytes (Some b))"
    using Cons by (simp add: index_def)
  then show ?thesis
    unfolding Cons by (subst characters.simps(2)) (simp only: Let_def if_True)
qed

lemma characters_complete:
  "xs \<noteq> [] \<Longrightarrow> charBytes (index xs 0) \<le> int (length xs) \<Longrightarrow>
   characters xs = yield [take (nat (charBytes (index xs 0))) xs] (characters (drop (nat (charBytes (index xs 0))) xs))"
proof (cases xs)
  case Nil
  assume "xs \<noteq> []"
  then show ?thesis using Nil by simp
next
  case (Cons b bs)
  assume "charBytes (index xs 0) \<le> int (length xs)"
  then have "\<not> length (b # bs) < nat (charBytes (Some b))"
    using Cons by (simp add: index_def)
  moreover have "index (b # bs) 0 = Some b"
    by (simp add: index_def)
  ultimately show ?thesis
    unfolding Cons by (subst characters.simps(2)) (simp only: Let_def if_False)
qed

lemma whileLoop_no_fragment:
  "0 \<le> start \<Longrightarrow> start \<le> int (length chunk) \<Longrightarrow>
   whileLoop chunk start [] = characters (drop (nat start) chunk)"
proof (induction "nat (int (length chunk) - start)" arbitrary: start rule: less_induct)
  case less
  show ?case
  proof (cases "start < int (length chunk)")
    case False
    then show ?thesis using less.prems by (simp add: whileLoop_done)
  next
    case True
    let ?rest = "drop (nat start) chunk"
    let ?n = "charBytes (index chunk start)"
    have ne: "?rest \<noteq> []" using True less.prems by simp
    have idx: "index ?rest 0 = index chunk start"
      using True less.prems by (simp add: index_def nat_add_distrib hd_drop_conv_nth)
    have len: "int (length ?rest) = int (length chunk) - start"
      using True less.prems by simp
    have cf: "completeFragment chunk start [] = FallThrough [] start []"
      by (simp add: completeFragment_def)
    show ?thesis
    proof (cases "start + ?n > int (length chunk)")
      case carry: True
      have "readCharacter chunk start = (int (length chunk), True, ?rest)"
        using carry less.prems by (simp add: readCharacter_def Let_def slice_to_end)
      then have "whileLoop chunk start [] = ([], ?rest)"
        using True cf by (simp add: whileLoop.simps [of chunk start "[]"] whileLoop_done)
      moreover have "characters ?rest = ([], ?rest)"
        using characters_incomplete [OF ne] idx len carry by simp
      ultimately show ?thesis by simp
    next
      case nocarry: False
      have pos: "0 < ?n" by (rule charBytes_pos)
      have sl: "slice chunk start (start + ?n) = take (nat ?n) ?rest"
        using nocarry less.prems pos by (simp add: slice_range)
      have "readCharacter chunk start = (start + ?n, False, take (nat ?n) ?rest)"
        using nocarry sl by (simp add: readCharacter_def Let_def)
      then have w: "whileLoop chunk start [] = yield [take (nat ?n) ?rest] (whileLoop chunk (start + ?n) [])"
        using True cf by (simp add: whileLoop.simps [of chunk start "[]"])
      have "whileLoop chunk (start + ?n) [] = characters (drop (nat (start + ?n)) chunk)"
        using less.hyps [of "start + ?n"] nocarry pos less.prems True by simp
      moreover have "drop (nat (start + ?n)) chunk = drop (nat ?n) ?rest"
        using pos less.prems by (simp add: nat_add_distrib add.commute)
      moreover have "characters ?rest = yield [take (nat ?n) ?rest] (characters (drop (nat ?n) ?rest))"
        using characters_complete [OF ne] idx len nocarry less.prems by simp
      ultimately show ?thesis using w by simp
    qed
  qed
qed

lemma readCharacter_at_end:
  "readCharacter chunk (int (length chunk)) = (int (length chunk), True, [])"
  by (simp add: readCharacter_def index_def charBytes_def slice_def Let_def)

lemma whileLoop_fall_through:
  assumes "start < int (length chunk)"
    and "completeFragment chunk start fragment = FallThrough ys s []"
    and "0 < s" and "s \<le> int (length chunk)"
  shows "whileLoop chunk start fragment = yield ys (whileLoop chunk s [])"
proof (cases "s = int (length chunk)")
  case True
  then show ?thesis
    using assms(1,2) readCharacter_at_end [of chunk]
    by (subst whileLoop.simps) simp
next
  case False
  then have lt: "s < int (length chunk)" using assms(4) by simp
  have cf: "completeFragment chunk s [] = FallThrough [] s []"
    by (simp add: completeFragment_def)
  obtain fin carryOver character where rc: "readCharacter chunk s = (fin, carryOver, character)"
    by (cases "readCharacter chunk s") auto
  have l: "whileLoop chunk start fragment =
      (if carryOver then yield ys (whileLoop chunk fin character)
       else yield (ys @ [character]) (whileLoop chunk fin []))"
    using assms(1,2) rc by (subst whileLoop.simps) simp
  have r: "whileLoop chunk s [] =
      (if carryOver then whileLoop chunk fin character
       else yield [character] (whileLoop chunk fin []))"
    using lt cf rc by (subst whileLoop.simps) simp
  show ?thesis
    unfolding l r by (simp add: yield_yield)
qed

lemma whileLoop_fragment:
  assumes "fragment \<noteq> []" and "int (length fragment) < charBytes (index fragment 0)"
  shows "whileLoop chunk 0 fragment = characters (fragment @ chunk)"
proof -
  let ?n = "charBytes (index fragment 0)"
  let ?r = "?n - int (length fragment)"
  have idx: "index (fragment @ chunk) 0 = index fragment 0"
    using assms(1) by (cases fragment) (simp_all add: index_def)
  have ne: "fragment @ chunk \<noteq> []" using assms(1) by simp
  show ?thesis
  proof (cases "chunk = []")
    case True
    then show ?thesis
      using characters_incomplete [OF assms] by (simp add: whileLoop_done)
  next
    case False
    then have lt: "0 < int (length chunk)" by simp
    show ?thesis
    proof (cases "?r > int (length chunk)")
      case True
      then have "completeFragment chunk 0 fragment = Continue (int (length chunk)) (fragment @ chunk)"
        using assms(1) by (simp add: completeFragment_def Let_def)
      then have "whileLoop chunk 0 fragment = ([], fragment @ chunk)"
        using lt by (subst whileLoop.simps) (simp add: whileLoop_done)
      moreover have "characters (fragment @ chunk) = ([], fragment @ chunk)"
        using characters_incomplete [OF ne] idx True by simp
      ultimately show ?thesis by simp
    next
      case False
      have rpos: "0 < ?r" using assms(2) by simp
      have sl: "slice chunk 0 ?r = take (nat ?r) chunk"
        using False rpos by (simp add: slice_range)
      have "completeFragment chunk 0 fragment =
          FallThrough [fragment @ take (nat ?r) chunk] ?r []"
        using assms(1) False sl by (simp add: completeFragment_def Let_def)
      then have "whileLoop chunk 0 fragment =
          yield [fragment @ take (nat ?r) chunk] (whileLoop chunk ?r [])"
        using whileLoop_fall_through [OF lt _ rpos] False by simp
      moreover have "whileLoop chunk ?r [] = characters (drop (nat ?r) chunk)"
        using whileLoop_no_fragment [of ?r chunk] rpos False by simp
      moreover have "characters (fragment @ chunk) =
          yield [take (nat ?n) (fragment @ chunk)] (characters (drop (nat ?n) (fragment @ chunk)))"
        using characters_complete [OF ne] idx False by simp
      moreover have "nat ?n - length fragment = nat ?r"
        using rpos by simp
      ultimately show ?thesis
        using assms(2) by simp
    qed
  qed
qed


lemma whileLoop_characters:
  "pending fragment \<Longrightarrow> whileLoop chunk 0 fragment = characters (fragment @ chunk)"
  using whileLoop_fragment [of fragment chunk] whileLoop_no_fragment [of 0 chunk]
  by (cases "fragment = []") (simp_all add: pending_def)

subsection \<open>The division into characters\<close>

lemma pending_Nil: "pending []"
  by (simp add: pending_def index_def charBytes_def)

lemma characters_pending: "pending (snd (characters xs))"
proof (induction xs rule: characters.induct)
  case 1
  then show ?case by (simp add: pending_Nil)
next
  case (2 b bs)
  show ?case
  proof (cases "length (b # bs) < nat (charBytes (Some b))")
    case True
    then have "characters (b # bs) = ([], b # bs)"
      by (subst characters.simps(2)) (simp only: Let_def if_True)
    then show ?thesis
      using True by (simp add: pending_def index_def)
  next
    case False
    then have "characters (b # bs) =
        yield [take (nat (charBytes (Some b))) (b # bs)]
          (characters (drop (nat (charBytes (Some b))) (b # bs)))"
      by (subst characters.simps(2)) (simp only: Let_def if_False)
    then show ?thesis
      using 2 [OF refl False] by (simp add: yield_def)
  qed
qed

lemma characters_append:
  "characters (xs @ ys) = yield (fst (characters xs)) (characters (snd (characters xs) @ ys))"
proof (induction xs rule: characters.induct)
  case 1
  then show ?case by simp
next
  case (2 b bs)
  let ?n = "nat (charBytes (Some b))"
  show ?case
  proof (cases "length (b # bs) < ?n")
    case True
    then have "characters (b # bs) = ([], b # bs)"
      by (subst characters.simps(2)) (simp only: Let_def if_True)
    then show ?thesis by simp
  next
    case False
    then have c: "characters (b # bs) = yield [take ?n (b # bs)] (characters (drop ?n (b # bs)))"
      by (subst characters.simps(2)) (simp only: Let_def if_False)
    have "\<not> length (b # bs @ ys) < ?n" using False by simp
    then have "characters (b # bs @ ys) =
        yield [take ?n (b # bs @ ys)] (characters (drop ?n (b # bs @ ys)))"
      by (subst characters.simps(2)) (simp only: Let_def if_False)
    moreover have "take ?n (b # bs @ ys) = take ?n (b # bs)"
      using False by (simp del: take_Suc_Cons add: take_Cons')
    moreover have "drop ?n (b # bs @ ys) = drop ?n (b # bs) @ ys"
      using False by (simp del: drop_Suc_Cons add: drop_Cons')
    ultimately show ?thesis
      using 2 [OF refl False] c by (simp add: yield_def)
  qed
qed

lemma charBytes_1: "b \<le> 0x7F \<Longrightarrow> charBytes (Some (b::byte)) = 1"
  by (simp add: charBytes_def word_le_nat_alt)

lemma charBytes_2: "0xC2 \<le> b \<Longrightarrow> b \<le> 0xDF \<Longrightarrow> charBytes (Some (b::byte)) = 2"
  by (simp add: charBytes_def word_le_nat_alt)

lemma charBytes_3: "0xE0 \<le> b \<Longrightarrow> b \<le> 0xEF \<Longrightarrow> charBytes (Some (b::byte)) = 3"
  by (simp add: charBytes_def word_le_nat_alt)

lemma charBytes_4: "0xF0 \<le> b \<Longrightarrow> charBytes (Some (b::byte)) = 4"
  by (simp add: charBytes_def)

lemma wellFormedUTF8_step:
  assumes "wellFormedUTF8 (b # bs)"
  shows "nat (charBytes (Some b)) \<le> length (b # bs)
       \<and> wellFormedUTF8 (drop (nat (charBytes (Some b))) (b # bs))"
proof -
  consider (one) "b \<le> 0x7F"
    | (two) "\<not> b \<le> 0x7F" "0xC2 \<le> b \<and> b \<le> 0xDF"
    | (three) "\<not> b \<le> 0x7F" "\<not> (0xC2 \<le> b \<and> b \<le> 0xDF)" "0xE0 \<le> b \<and> b \<le> 0xEF"
    | (four) "\<not> b \<le> 0x7F" "\<not> (0xC2 \<le> b \<and> b \<le> 0xDF)" "\<not> (0xE0 \<le> b \<and> b \<le> 0xEF)"
        "0xF0 \<le> b \<and> b \<le> 0xF4"
    | (none) "\<not> b \<le> 0x7F" "\<not> (0xC2 \<le> b \<and> b \<le> 0xDF)" "\<not> (0xE0 \<le> b \<and> b \<le> 0xEF)"
        "\<not> (0xF0 \<le> b \<and> b \<le> 0xF4)"
    by blast
  then show ?thesis
  proof cases
    case one
    then show ?thesis using assms by (simp add: charBytes_1)
  next
    case two
    then obtain c1 r where "bs = c1 # r" "wellFormedUTF8 r"
      using assms by (cases bs) auto
    then show ?thesis using two by (simp add: charBytes_2)
  next
    case three
    then obtain c1 c2 r where "bs = c1 # c2 # r" "wellFormedUTF8 r"
      using assms by (auto split: list.splits)
    then show ?thesis using three by (simp add: charBytes_3)
  next
    case four
    then obtain c1 c2 c3 r where "bs = c1 # c2 # c3 # r" "wellFormedUTF8 r"
      using assms by (auto split: list.splits)
    then show ?thesis using four by (simp add: charBytes_4)
  next
    case none
    have "\<not> wellFormedUTF8 (b # bs)"
      by (subst wellFormedUTF8.simps) (simp only: none if_False not_False_eq_True)
    then show ?thesis using assms by simp
  qed
qed

lemma wellFormedUTF8_complete: "wellFormedUTF8 xs \<Longrightarrow> snd (characters xs) = []"
proof (induction xs rule: characters.induct)
  case 1
  then show ?case by simp
next
  case (2 b bs)
  let ?n = "nat (charBytes (Some b))"
  have s: "?n \<le> length (b # bs)" "wellFormedUTF8 (drop ?n (b # bs))"
    using wellFormedUTF8_step [OF 2(2)] by simp_all
  then have f: "\<not> length (b # bs) < ?n" by simp
  then have "characters (b # bs) = yield [take ?n (b # bs)] (characters (drop ?n (b # bs)))"
    by (subst characters.simps(2)) (simp only: Let_def if_False)
  then show ?case
    using 2(1) [OF refl f s(2)] by (simp add: yield_def)
qed

lemma characters_concat: "concat (fst (characters xs)) @ snd (characters xs) = xs"
proof (induction xs rule: characters.induct)
  case 1
  then show ?case by simp
next
  case (2 b bs)
  let ?n = "nat (charBytes (Some b))"
  show ?case
  proof (cases "length (b # bs) < ?n")
    case True
    then have "characters (b # bs) = ([], b # bs)"
      by (subst characters.simps(2)) (simp only: Let_def if_True)
    then show ?thesis by simp
  next
    case False
    then have "characters (b # bs) = yield [take ?n (b # bs)] (characters (drop ?n (b # bs)))"
      by (subst characters.simps(2)) (simp only: Let_def if_False)
    then show ?thesis
      using 2 [OF refl False] by (simp add: yield_def del: take_Suc_Cons drop_Suc_Cons)
  qed
qed

lemma characters_lengths:
  "c \<in> set (fst (characters xs)) \<Longrightarrow> int (length c) = charBytes (index c 0)"
proof (induction xs rule: characters.induct)
  case 1
  then show ?case by simp
next
  case (2 b bs)
  let ?n = "nat (charBytes (Some b))"
  show ?case
  proof (cases "length (b # bs) < ?n")
    case True
    then have "characters (b # bs) = ([], b # bs)"
      by (subst characters.simps(2)) (simp only: Let_def if_True)
    then show ?thesis using 2(2) by simp
  next
    case False
    then have "characters (b # bs) = yield [take ?n (b # bs)] (characters (drop ?n (b # bs)))"
      by (subst characters.simps(2)) (simp only: Let_def if_False)
    then have "c = take ?n (b # bs) \<or> c \<in> set (fst (characters (drop ?n (b # bs))))"
      using 2(2) by (simp add: yield_def)
    then show ?thesis
    proof
      assume c: "c = take ?n (b # bs)"
      have pos: "0 < ?n" using charBytes_pos [of "Some b"] by simp
      then have "index c 0 = Some b"
        unfolding c by (cases ?n) (simp_all add: index_def)
      moreover have "length c = ?n"
        unfolding c using False by simp
      ultimately show ?thesis using pos by simp
    next
      assume "c \<in> set (fst (characters (drop ?n (b # bs))))"
      then show ?thesis using 2(1) [OF refl False] by simp
    qed
  qed
qed

subsection \<open>All chunks\<close>

lemma forAwait_characters:
  "pending fragment \<Longrightarrow> forAwait fragment chunks = characters (fragment @ concat chunks)"
proof (induction chunks arbitrary: fragment)
  case Nil
  then show ?case
    using whileLoop_characters [of fragment "[]"] by (simp add: whileLoop_done)
next
  case (Cons chunk chunks)
  have w: "whileLoop chunk 0 fragment = characters (fragment @ chunk)"
    using Cons.prems by (rule whileLoop_characters)
  have "forAwait (snd (characters (fragment @ chunk))) chunks =
      characters (snd (characters (fragment @ chunk)) @ concat chunks)"
    using Cons.IH characters_pending by blast
  then show ?case
    using w characters_append [of "fragment @ chunk" "concat chunks"]
    by (simp add: split_beta)
qed

lemma iterateCharacters_characters:
  "iterateCharacters chunks =
     (fst (characters (concat chunks)), snd (characters (concat chunks)) \<noteq> [])"
  using forAwait_characters [OF pending_Nil, of chunks]
  by (simp add: iterateCharacters_def split_beta)

lemma chunksFrom_concat: "concat (chunksFrom buf offset) = drop offset buf"
proof (induction buf offset rule: chunksFrom.induct)
  case (1 buf offset)
  show ?case
  proof (cases "offset < length buf")
    case True
    let ?fin = "min (offset + CHUNK_SIZE) (length buf)"
    have "concat (chunksFrom buf offset) =
        take (?fin - offset) (drop offset buf) @ concat (chunksFrom buf ?fin)"
      using True by (subst chunksFrom.simps) (simp add: Let_def)
    also have "\<dots> = take (?fin - offset) (drop offset buf) @ drop ?fin buf"
      using 1 [OF True refl refl refl] by simp
    also have "drop ?fin buf = drop (?fin - offset) (drop offset buf)"
      using True by (simp add: min_def)
    finally show ?thesis
      by (simp only: append_take_drop_id)
  next
    case False
    then show ?thesis by (subst chunksFrom.simps) simp
  qed
qed

lemma iterateChunksFromFile_concat: "concat (iterateChunksFromFile buf) = buf"
  by (simp add: iterateChunksFromFile_def chunksFrom_concat)

lemma characters_nonempty:
  "c \<in> set (fst (characters xs)) \<Longrightarrow> c \<noteq> []"
  using characters_lengths [of c xs] charBytes_pos [of "index c 0"] by auto

lemma charBytes_thresholds:
  "c \<noteq> [] \<Longrightarrow>
   charBytes (index c 0) =
     (if 0xF0 \<le> hd c then 4 else if 0xE0 \<le> hd c then 3 else if 0xC0 \<le> hd c then 2 else 1)"
  by (cases c) (simp_all add: index_def charBytes_def)

lemma forAwait_append:
  "forAwait fragment (xs @ ys) =
     yield (fst (forAwait fragment xs)) (forAwait (snd (forAwait fragment xs)) ys)"
  by (induction xs arbitrary: fragment) (simp_all add: split_beta yield_def)

subsection \<open>The claims on the decoder\<close>

text \<open>
  C1: for every byte buffer (well-formed UTF-8 or not) and every division of it into
  chunks (of any sizes, empty chunks included), the decoder yields on the chunks the
  same characters, in the same order, as on the whole buffer given as one chunk, and
  logs its diagnostic in the same cases. In particular the decoder on a file, which
  reads chunks of \<open>CHUNK_SIZE\<close> bytes, gives what it gives on the file's bytes as one
  chunk.
\<close>

theorem boundary_invariance:
  "iterateCharacters chunks = iterateCharacters [concat chunks]
   \<and> iterateCharactersFromFile buf = iterateCharacters [buf]"
  using iterateChunksFromFile_concat [of buf]
  by (simp add: iterateCharacters_characters iterateCharactersFromFile_def)

theorem boundary_invariance_witness:
  "iterateCharacters [[0x61, 0xE3], [0x81], [0x82, 0xF0, 0x9F], [0x98, 0x80, 0xC3, 0xA9]]
     = ([[0x61], [0xE3, 0x81, 0x82], [0xF0, 0x9F, 0x98, 0x80], [0xC3, 0xA9]], False)
   \<and> iterateCharacters [[0x61, 0xE3, 0x81, 0x82, 0xF0, 0x9F, 0x98, 0x80, 0xC3, 0xA9]]
     = ([[0x61], [0xE3, 0x81, 0x82], [0xF0, 0x9F, 0x98, 0x80], [0xC3, 0xA9]], False)"
proof -
  have e: "iterateCharacters [[0x61, 0xE3, 0x81, 0x82, 0xF0, 0x9F, 0x98, 0x80, 0xC3, 0xA9]]
     = ([[0x61], [0xE3, 0x81, 0x82], [0xF0, 0x9F, 0x98, 0x80], [0xC3, 0xA9]], False)"
    by code_simp
  show ?thesis
    using boundary_invariance
      [of "[[0x61, 0xE3], [0x81], [0x82, 0xF0, 0x9F], [0x98, 0x80, 0xC3, 0xA9]]"]
    by (simp add: e)
qed

text \<open>
  C4: when the bytes of the chunks together are well-formed UTF-8, every character
  the decoder yields is not empty and has the number of bytes that its own first
  byte \<open>b\<close> announces, which is \<open>charBytes\<close> of that byte: 4 when \<open>b \<ge> 0xF0\<close>, else 3
  when \<open>b \<ge> 0xE0\<close>, else 2 when \<open>b \<ge> 0xC0\<close>, else 1; the characters yielded,
  concatenated in order, are the bytes of the chunks; and no diagnostic is logged.
\<close>

theorem no_split_emission:
  assumes "wellFormedUTF8 (concat chunks)"
  shows "(\<forall>c \<in> set (fst (iterateCharacters chunks)).
            c \<noteq> []
            \<and> int (length c) = charBytes (index c 0)
            \<and> length c =
                (if 0xF0 \<le> hd c then 4 else if 0xE0 \<le> hd c then 3
                 else if 0xC0 \<le> hd c then 2 else 1))
       \<and> concat (fst (iterateCharacters chunks)) = concat chunks
       \<and> \<not> snd (iterateCharacters chunks)"
proof -
  have "c \<noteq> [] \<and> int (length c) = charBytes (index c 0)
      \<and> length c = (if 0xF0 \<le> hd c then 4 else if 0xE0 \<le> hd c then 3
                 else if 0xC0 \<le> hd c then 2 else 1)"
    if "c \<in> set (fst (characters (concat chunks)))" for c
  proof -
    have ne: "c \<noteq> []" using that by (rule characters_nonempty)
    have len: "int (length c) = charBytes (index c 0)" using that by (rule characters_lengths)
    then have "int (length c) = (if 0xF0 \<le> hd c then 4 else if 0xE0 \<le> hd c then 3
                 else if 0xC0 \<le> hd c then 2 else 1)"
      using charBytes_thresholds [OF ne] by simp
    then have "length c = (if 0xF0 \<le> hd c then 4 else if 0xE0 \<le> hd c then 3
                 else if 0xC0 \<le> hd c then 2 else 1)"
      by (simp split: if_splits)
    then show ?thesis using ne len by simp
  qed
  then have "\<forall>c \<in> set (fst (characters (concat chunks))).
      c \<noteq> [] \<and> int (length c) = charBytes (index c 0)
      \<and> length c = (if 0xF0 \<le> hd c then 4 else if 0xE0 \<le> hd c then 3
                 else if 0xC0 \<le> hd c then 2 else 1)"
    by blast
  moreover have "fst (iterateCharacters chunks) = fst (characters (concat chunks))"
    by (simp add: iterateCharacters_characters)
  moreover have "concat (fst (characters (concat chunks))) = concat chunks"
    using characters_concat [of "concat chunks"] wellFormedUTF8_complete [OF assms] by simp
  moreover have "\<not> snd (iterateCharacters chunks)"
    using wellFormedUTF8_complete [OF assms] by (simp add: iterateCharacters_characters)
  ultimately show ?thesis
    by (simp only: simp_thms)
qed

theorem no_split_emission_witness:
  "wellFormedUTF8 (concat [[0x61, 0xE3], [0x81], [0x82, 0xF0, 0x9F], [0x98, 0x80, 0xC3, 0xA9]])
   \<and> iterateCharacters [[0x61, 0xE3], [0x81], [0x82, 0xF0, 0x9F], [0x98, 0x80, 0xC3, 0xA9]]
      = ([[0x61], [0xE3, 0x81, 0x82], [0xF0, 0x9F, 0x98, 0x80], [0xC3, 0xA9]], False)
   \<and> map length (fst (iterateCharacters
          [[0x61, 0xE3], [0x81], [0x82, 0xF0, 0x9F], [0x98, 0x80, 0xC3, 0xA9]]))
      = map (\<lambda>c. if 0xF0 \<le> hd c then 4 else if 0xE0 \<le> hd c then 3
                  else if 0xC0 \<le> hd c then 2 else 1)
          (fst (iterateCharacters
            [[0x61, 0xE3], [0x81], [0x82, 0xF0, 0x9F], [0x98, 0x80, 0xC3, 0xA9]]))
   \<and> map length (fst (iterateCharacters
          [[0x61, 0xE3], [0x81], [0x82, 0xF0, 0x9F], [0x98, 0x80, 0xC3, 0xA9]]))
      = [1, 3, 4, 2]
   \<and> concat (fst (iterateCharacters
          [[0x61, 0xE3], [0x81], [0x82, 0xF0, 0x9F], [0x98, 0x80, 0xC3, 0xA9]]))
      = [0x61, 0xE3, 0x81, 0x82, 0xF0, 0x9F, 0x98, 0x80, 0xC3, 0xA9]"
proof -
  let ?cs = "[[0x61, 0xE3], [0x81], [0x82, 0xF0, 0x9F], [0x98, 0x80, 0xC3, 0xA9]] :: Uint8Array list"
  have h: "wellFormedUTF8 (concat ?cs)"
    by (simp add: continuation_def)
  have e: "iterateCharacters ?cs
      = ([[0x61], [0xE3, 0x81, 0x82], [0xF0, 0x9F, 0x98, 0x80], [0xC3, 0xA9]], False)"
    by code_simp
  have t: "map length (fst (iterateCharacters ?cs))
      = map (\<lambda>c. if 0xF0 \<le> hd c then 4 else if 0xE0 \<le> hd c then 3
                  else if 0xC0 \<le> hd c then 2 else 1) (fst (iterateCharacters ?cs))
    \<and> concat (fst (iterateCharacters ?cs)) = concat ?cs"
    using no_split_emission [OF h] by simp
  have l: "map length (fst (iterateCharacters ?cs)) = [1, 3, 4, 2]"
    unfolding e by simp
  show ?thesis
    using h t e l by simp
qed

text \<open>
  C9: after any sequence of chunks, a fragment that is left for the next chunk is
  not empty and shorter than \<open>charBytes\<close> of its first byte. When the next chunk has
  the bytes that the fragment's character still needs, the loop over that chunk
  first yields the character, fragment and bytes together, right after what the
  decoder has yielded before, and goes on behind those bytes with the empty
  fragment; when the chunk ends with those bytes, the fragment left is empty. When
  the next chunk has too few bytes, nothing is yielded and the fragment grows by the
  whole chunk.
\<close>

theorem fragment_invariant:
  "(let fragment = snd (forAwait [] chunks);
        remainSize = charBytes (index fragment 0) - int (length fragment)
    in (fragment \<noteq> [] \<longrightarrow>
          0 < length fragment \<and> int (length fragment) < charBytes (index fragment 0))
       \<and> (fragment \<noteq> [] \<and> chunk \<noteq> [] \<and> remainSize \<le> int (length chunk) \<longrightarrow>
          completeFragment chunk 0 fragment =
            FallThrough [fragment @ take (nat remainSize) chunk] remainSize []
          \<and> whileLoop chunk 0 fragment =
              yield [fragment @ take (nat remainSize) chunk] (whileLoop chunk remainSize [])
          \<and> forAwait [] (chunks @ [chunk]) =
              yield (fst (forAwait [] chunks) @ [fragment @ take (nat remainSize) chunk])
                (whileLoop chunk remainSize []))
       \<and> (fragment \<noteq> [] \<and> remainSize = int (length chunk) \<longrightarrow>
          whileLoop chunk 0 fragment = ([fragment @ chunk], [])
          \<and> forAwait [] (chunks @ [chunk]) =
              (fst (forAwait [] chunks) @ [fragment @ chunk], []))
       \<and> (fragment \<noteq> [] \<and> int (length chunk) < remainSize \<longrightarrow>
          whileLoop chunk 0 fragment = ([], fragment @ chunk)
          \<and> forAwait [] (chunks @ [chunk]) = (fst (forAwait [] chunks), fragment @ chunk)))"
proof -
  let ?f = "snd (forAwait [] chunks)"
  let ?r = "charBytes (index ?f 0) - int (length ?f)"
  have p: "pending ?f"
    using forAwait_characters [OF pending_Nil, of chunks]
      characters_pending [of "concat chunks"]
    by simp
  then have r: "0 < ?r"
    by (simp add: pending_def)
  have step: "forAwait [] (chunks @ [chunk]) =
      yield (fst (forAwait [] chunks)) (whileLoop chunk 0 ?f)"
    by (simp add: forAwait_append split_beta yield_def)
  have cf: "completeFragment chunk 0 ?f = FallThrough [?f @ take (nat ?r) chunk] ?r []"
    if "?f \<noteq> []" "?r \<le> int (length chunk)"
  proof -
    have "slice chunk 0 ?r = take (nat ?r) chunk"
      using that r by (simp add: slice_range)
    moreover have "\<not> int (length chunk) < ?r"
      using that by simp
    ultimately show ?thesis
      using that(1) by (simp only: completeFragment_def Let_def length_greater_0_conv
          simp_thms if_True if_False add_0)
  qed
  have w: "whileLoop chunk 0 ?f = yield [?f @ take (nat ?r) chunk] (whileLoop chunk ?r [])"
    if "?f \<noteq> []" "?r \<le> int (length chunk)"
  proof -
    have "0 < int (length chunk)" using that(2) r by linarith
    then show ?thesis
      using whileLoop_fall_through [OF _ cf [OF that] r that(2)] by simp
  qed
  have full: "whileLoop chunk 0 ?f = ([?f @ chunk], [])"
    if "?f \<noteq> []" "?r = int (length chunk)"
    using w [OF that(1)] that(2) by (simp add: whileLoop_done)
  have short: "whileLoop chunk 0 ?f = ([], ?f @ chunk)"
    if "?f \<noteq> []" "int (length chunk) < ?r"
  proof (cases "chunk = []")
    case True
    then show ?thesis by (simp add: whileLoop_done)
  next
    case False
    then have lt: "0 < int (length chunk)" by simp
    have "completeFragment chunk 0 ?f = Continue (int (length chunk)) (?f @ chunk)"
      using that by (simp add: completeFragment_def Let_def)
    then show ?thesis
      using lt by (subst whileLoop.simps) (simp add: whileLoop_done)
  qed
  have a: "?f \<noteq> [] \<longrightarrow> 0 < length ?f \<and> int (length ?f) < charBytes (index ?f 0)"
    using p by (simp add: pending_def)
  have b: "?f \<noteq> [] \<and> chunk \<noteq> [] \<and> ?r \<le> int (length chunk) \<longrightarrow>
          completeFragment chunk 0 ?f = FallThrough [?f @ take (nat ?r) chunk] ?r []
          \<and> whileLoop chunk 0 ?f = yield [?f @ take (nat ?r) chunk] (whileLoop chunk ?r [])
          \<and> forAwait [] (chunks @ [chunk]) =
              yield (fst (forAwait [] chunks) @ [?f @ take (nat ?r) chunk]) (whileLoop chunk ?r [])"
    using cf w step by (simp add: yield_def)
  have c: "?f \<noteq> [] \<and> ?r = int (length chunk) \<longrightarrow>
          whileLoop chunk 0 ?f = ([?f @ chunk], [])
          \<and> forAwait [] (chunks @ [chunk]) = (fst (forAwait [] chunks) @ [?f @ chunk], [])"
    using full step by simp
  have d: "?f \<noteq> [] \<and> int (length chunk) < ?r \<longrightarrow>
          whileLoop chunk 0 ?f = ([], ?f @ chunk)
          \<and> forAwait [] (chunks @ [chunk]) = (fst (forAwait [] chunks), ?f @ chunk)"
    using short step by simp
  show ?thesis
    unfolding Let_def using a b c d by blast
qed

theorem fragment_invariant_witness:
  "snd (forAwait [] [[0x61, 0xE3]]) = [0xE3]
   \<and> 0 < length [0xE3 :: byte]
   \<and> int (length [0xE3 :: byte]) < charBytes (index [0xE3] 0)
   \<and> completeFragment [0x81, 0x82, 0x62] 0 [0xE3] = FallThrough [[0xE3, 0x81, 0x82]] 2 []
   \<and> whileLoop [0x81, 0x82, 0x62] 0 [0xE3] = ([[0xE3, 0x81, 0x82], [0x62]], [])
   \<and> forAwait [] ([[0x61, 0xE3]] @ [[0x81, 0x82, 0x62]])
      = ([[0x61], [0xE3, 0x81, 0x82], [0x62]], [])
   \<and> whileLoop [0x81, 0x82] 0 [0xE3] = ([[0xE3, 0x81, 0x82]], [])
   \<and> whileLoop [0x81] 0 [0xE3] = ([], [0xE3, 0x81])"
proof -
  have f: "snd (forAwait [] [[0x61, 0xE3]]) = [0xE3]"
    by code_simp
  have g: "fst (forAwait [] [[0x61, 0xE3]]) = [[0x61]]"
    by code_simp
  have k: "whileLoop [0x81, 0x82, 0x62] 2 [] = ([[0x62]], [])"
    by code_simp
  have n: "charBytes (index [0xE3] 0) = 3"
    by (simp add: index_def charBytes_def)
  have t1: "completeFragment [0x81, 0x82, 0x62] 0 [0xE3] = FallThrough [[0xE3, 0x81, 0x82]] 2 []
      \<and> whileLoop [0x81, 0x82, 0x62] 0 [0xE3] = ([[0xE3, 0x81, 0x82], [0x62]], [])
      \<and> forAwait [] ([[0x61, 0xE3]] @ [[0x81, 0x82, 0x62]])
         = ([[0x61], [0xE3, 0x81, 0x82], [0x62]], [])"
    using fragment_invariant [of "[[0x61, 0xE3]]" "[0x81, 0x82, 0x62]"]
    unfolding f g Let_def n by (simp add: k)
  have t2: "whileLoop [0x81, 0x82] 0 [0xE3] = ([[0xE3, 0x81, 0x82]], [])"
    using fragment_invariant [of "[[0x61, 0xE3]]" "[0x81, 0x82]"]
    unfolding f g Let_def n by (simp add: whileLoop_done)
  have t3: "whileLoop [0x81] 0 [0xE3] = ([], [0xE3, 0x81])"
    using fragment_invariant [of "[[0x61, 0xE3]]" "[0x81]"]
    unfolding f g Let_def n by simp
  show ?thesis
    using f n t1 t2 t3 by simp
qed

end
